theory Spec2Isabelle
  imports Main "HOL-Library.Word"
begin

unbundle bit_operations_syntax

section \<open>Bitstream container codec of the Media Foundation video decoder\<close>

text \<open>
  The two static helpers \<^verbatim>\<open>VideoDecoder::isAvcc\<close> and
  \<^verbatim>\<open>VideoDecoder::convertAvccToAnnexB\<close> take a raw pointer and a size.
  A buffer is modelled as \<open>byte list option\<close>: \<open>None\<close> is the null pointer, and
  \<open>Some d\<close> is a readable buffer whose size argument is \<open>length d\<close>.
  Offsets are \<^verbatim>\<open>size_t\<close> values; on the 64-bit target an offset never exceeds the
  buffer size by more than \<open>2^32 + 4\<close>, so it cannot wrap, and offsets are natural
  numbers here. The NAL length fields keep their machine width.
  Both helpers open with an \<^verbatim>\<open>ocean_assert\<close> on their arguments, a diagnostic of
  debug builds; the model is the release build, where the explicit guard that follows
  the assertion returns false.
\<close>

type_synonym byte = "8 word"

definition startCode :: "byte list" where
  "startCode = [0x00, 0x00, 0x00, 0x01]"

text \<open>\<^verbatim>\<open>(uint32_t(d[o]) << 24) | (uint32_t(d[o+1]) << 16) | (uint32_t(d[o+2]) << 8) | uint32_t(d[o+3])\<close>\<close>

definition be32 :: "byte list \<Rightarrow> nat \<Rightarrow> 32 word" where
  "be32 d off =
     push_bit 24 (ucast (d ! off)) OR push_bit 16 (ucast (d ! (off + 1)))
       OR push_bit 8 (ucast (d ! (off + 2))) OR ucast (d ! (off + 3))"

text \<open>\<^verbatim>\<open>(size_t(d[o]) << 8) | d[o+1]\<close>, also used for the 16-bit NAL unit count.\<close>

definition be16 :: "byte list \<Rightarrow> nat \<Rightarrow> nat" where
  "be16 d off = unat (push_bit 8 (ucast (d ! off) :: 64 word) OR ucast (d ! (off + 1)))"

text \<open>
  The loop of the non-configuration path: \<^verbatim>\<open>while (offset + 4 <= avccSize)\<close>, leaving
  at the first length that is zero or does not fit.
\<close>

function nalLoop :: "byte list \<Rightarrow> nat \<Rightarrow> byte list \<Rightarrow> byte list" where
  "nalLoop d off out =
     (if off + 4 \<le> length d then
        (let nalLength = be32 d off; off' = off + 4 in
         if nalLength = 0 \<or> off' + unat nalLength > length d then out
         else nalLoop d (off' + unat nalLength)
                (out @ startCode @ take (unat nalLength) (drop off' d)))
      else out)"
  by pat_completeness auto
termination
  by (relation "measure (\<lambda>(d, off, out). length d - off)") auto

declare nalLoop.simps [simp del]

text \<open>
  The three loops of the configuration paths have one shape: a counter running up to a
  count read from the record, guarded by \<^verbatim>\<open>offset + 2 <= avccSize\<close>, reading a 16-bit
  length, and leaving by \<^verbatim>\<open>break\<close> when the unit does not fit (the two length bytes
  are consumed by then). The first argument counts the iterations that remain.
\<close>

fun unitLoop :: "nat \<Rightarrow> byte list \<Rightarrow> nat \<Rightarrow> byte list \<Rightarrow> nat \<times> byte list" where
  "unitLoop 0 d off out = (off, out)"
| "unitLoop (Suc n) d off out =
     (if off + 2 \<le> length d then
        (let len = be16 d off; off' = off + 2 in
         if off' + len > length d then (off', out)
         else unitLoop n d (off' + len) (out @ startCode @ take len (drop off' d)))
      else (off, out))"

text \<open>
  The outer loop of the HEVC record:
  \<^verbatim>\<open>for (arrayIdx = 0; arrayIdx < numArrays && offset + 3 <= avccSize; ++arrayIdx)\<close>.
\<close>

fun arrayLoop :: "nat \<Rightarrow> byte list \<Rightarrow> nat \<Rightarrow> byte list \<Rightarrow> nat \<times> byte list" where
  "arrayLoop 0 d off out = (off, out)"
| "arrayLoop (Suc n) d off out =
     (if off + 3 \<le> length d then
        (let off1 = off + 1; numNalus = be16 d off1; off2 = off1 + 2;
             (off3, out') = unitLoop numNalus d off2 out
         in arrayLoop n d off3 out')
      else (off, out))"

definition isHevcMime :: "string \<Rightarrow> bool" where
  "isHevcMime mime = (mime = ''video/hevc'' \<or> mime = ''video/h265'')"

text \<open>
  \<^verbatim>\<open>convertAvccToAnnexB(avccData, avccSize, annexBData, isCodecConfig, mime)\<close>: the third
  argument is the content of the caller's vector on entry; the result is the returned
  flag and the content of the vector on exit.
\<close>

definition convertAvccToAnnexB ::
    "byte list option \<Rightarrow> byte list \<Rightarrow> bool \<Rightarrow> string \<Rightarrow> bool \<times> byte list" where
  "convertAvccToAnnexB avccData annexBData isCodecConfig mime =
     (case avccData of
        None \<Rightarrow> (False, annexBData)
      | Some d \<Rightarrow>
          if length d < 4 then (False, annexBData)
          else if \<not> isCodecConfig then
            (let out = nalLoop d 0 [] in (out \<noteq> [], out))
          else if isHevcMime mime then
            (if length d < 23 then (False, annexBData)
             else
               (let numArrays = unat (d ! 22);
                    (off, out) = arrayLoop numArrays d 23 []
                in (out \<noteq> [], out)))
          else if length d < 7 then (False, annexBData)
          else
            (let numSPS = unat ((d ! 5) AND 0x1F);
                 (off, out) = unitLoop numSPS d 6 []
             in if off < length d then
                  (let numPPS = unat (d ! off);
                       (off', out') = unitLoop numPPS d (off + 1) out
                   in (out' \<noteq> [], out'))
                else (out \<noteq> [], out)))"

text \<open>\<^verbatim>\<open>isAvcc(data, size, isCodecConfig)\<close>\<close>

definition isAvcc :: "byte list option \<Rightarrow> bool \<Rightarrow> bool" where
  "isAvcc data isCodecConfig =
     (case data of
        None \<Rightarrow> False
      | Some d \<Rightarrow>
          if length d < 4 then False
          else if isCodecConfig then
            (if d ! 0 = 0x00 \<and> d ! 1 = 0x00 \<and> d ! 2 = 0x00 \<and> d ! 3 = 0x01 then False
             else if d ! 0 = 0x00 \<and> d ! 1 = 0x00 \<and> d ! 2 = 0x01 then False
             else True)
          else if d ! 0 = 0x00 \<and> d ! 1 = 0x00 \<and> d ! 2 = 0x00 \<and> d ! 3 = 0x01 then False
          else if d ! 0 = 0x00 \<and> d ! 1 = 0x00 \<and> d ! 2 = 0x01 then
            (let possibleLength = be32 d 0 in
             if possibleLength > 0 \<and> unat possibleLength \<le> length d - 4 then True
             else False)
          else True)"


subsection \<open>Notions of the specification used to state the round trip\<close>

text \<open>
  The following definitions are not code of the decoder; they follow the words of the
  specification. A well-formed AVCC/HVCC buffer is a concatenation of units, each a 4-byte
  big-endian length that is positive and fits the remaining buffer, followed by that
  many payload bytes. \<open>parseAvcc\<close> is the direct parse by length prefixes.
\<close>

function wellFormedAvcc :: "byte list \<Rightarrow> bool" where
  "wellFormedAvcc b =
     (if b = [] then True
      else if length b < 4 then False
      else (let n = unat (be32 b 0) in
            if n = 0 \<or> 4 + n > length b then False
            else wellFormedAvcc (drop (4 + n) b)))"
  by pat_completeness auto
termination
  by (relation "measure length") auto

function parseAvcc :: "byte list \<Rightarrow> byte list list" where
  "parseAvcc b =
     (if length b < 4 then []
      else (let n = unat (be32 b 0) in
            if n = 0 \<or> 4 + n > length b then []
            else take n (drop 4 b) # parseAvcc (drop (4 + n) b)))"
  by pat_completeness auto
termination
  by (relation "measure length") auto

declare wellFormedAvcc.simps [simp del] parseAvcc.simps [simp del]

text \<open>Whether the bytes \<open>00 00 00 01\<close> occur somewhere in a payload.\<close>

fun hasStartCode :: "byte list \<Rightarrow> bool" where
  "hasStartCode (a # b # c # e # xs) =
     ((a = 0 \<and> b = 0 \<and> c = 0 \<and> e = 1) \<or> hasStartCode (b # c # e # xs))"
| "hasStartCode xs = False"

text \<open>
  Re-scanning an Annex B stream for 4-byte start codes, from left to right: the bytes
  between two start codes (or after the last one) are one payload. The first argument
  collects the payload being read.
\<close>

fun splitStartCodes :: "byte list \<Rightarrow> byte list \<Rightarrow> byte list list" where
  "splitStartCodes cur (a # b # c # e # xs) =
     (if a = 0 \<and> b = 0 \<and> c = 0 \<and> e = 1 then cur # splitStartCodes [] xs
      else splitStartCodes (cur @ [a]) (b # c # e # xs))"
| "splitStartCodes cur xs = [cur @ xs]"

definition annexBPayloads :: "byte list \<Rightarrow> byte list list" where
  "annexBPayloads out = tl (splitStartCodes [] out)"

definition toAnnexB :: "byte list list \<Rightarrow> byte list" where
  "toAnnexB ps = concat (map (\<lambda>p. startCode @ p) ps)"


section \<open>Properties of the bitstream container codec\<close>

lemma be32_drop: "off + 4 \<le> length d \<Longrightarrow> be32 (drop off d) 0 = be32 d off"
  by (simp add: be32_def)

lemma nalLoop_parse:
  "off \<le> length d \<Longrightarrow> nalLoop d off out = out @ toAnnexB (parseAvcc (drop off d))"
proof (induction d off out rule: nalLoop.induct)
  case (1 d off out)
  show ?case
  proof (cases "off + 4 \<le> length d")
    case False
    then show ?thesis
      by (simp add: nalLoop.simps [of d off] parseAvcc.simps [of "drop off d"] toAnnexB_def)
  next
    case True
    note fits = this
    show ?thesis
    proof (cases "be32 d off = 0 \<or> off + 4 + unat (be32 d off) > length d")
      case True
      with fits show ?thesis
        by (auto simp add: nalLoop.simps [of d off] parseAvcc.simps [of "drop off d"] toAnnexB_def be32_drop Let_def unat_eq_0)
    next
      case False
      define n where "n = unat (be32 d off)"
      from False have nz: "be32 d off \<noteq> 0" and fit: "off + 4 + n \<le> length d"
        by (simp_all add: n_def)
      have npos: "n \<noteq> 0" using nz by (simp add: n_def unat_eq_0)
      have step: "nalLoop d off out =
          nalLoop d (off + 4 + n) (out @ startCode @ take n (drop (off + 4) d))"
        using fits nz fit by (subst nalLoop.simps) (simp add: Let_def n_def)
      have ih: "nalLoop d (off + 4 + n) (out @ startCode @ take n (drop (off + 4) d)) =
          (out @ startCode @ take n (drop (off + 4) d)) @ toAnnexB (parseAvcc (drop (off + 4 + n) d))"
        using "1.IH" [OF fits refl refl] False fit by (simp add: n_def)
      have len: "\<not> length (drop off d) < 4" "\<not> 4 + n > length (drop off d)"
        using fits fit by simp_all
      have p: "parseAvcc (drop off d) =
          take n (drop (off + 4) d) # parseAvcc (drop (off + 4 + n) d)"
        using len npos fits
        by (subst parseAvcc.simps) (simp add: Let_def be32_drop n_def [symmetric] add.commute add.left_commute)
      show ?thesis
        unfolding step ih p by (simp add: toAnnexB_def)
    qed
  qed
qed

lemma split_no_code_final: "\<not> hasStartCode p \<Longrightarrow> splitStartCodes cur p = [cur @ p]"
  by (induction cur p rule: splitStartCodes.induct) auto

lemma split_payload:
  "\<not> hasStartCode p \<Longrightarrow> splitStartCodes cur (p @ 0 # 0 # 0 # 1 # r) = (cur @ p) # splitStartCodes [] r"
proof (induction p arbitrary: cur)
  case Nil
  then show ?case by simp
next
  case (Cons x p)
  have np: "\<not> hasStartCode p" using Cons.prems
    by (cases p rule: hasStartCode.cases) (auto)
  show ?case
  proof (cases p)
    case Nil
    then show ?thesis by simp
  next
    case (Cons y q)
    note pq = this
    show ?thesis
    proof (cases q)
      case Nil
      then show ?thesis using pq by simp
    next
      case (Cons z s)
      note qs = this
      show ?thesis
      proof (cases s)
        case Nil
        then show ?thesis using pq qs by simp
      next
        case (Cons w t)
        have "splitStartCodes cur ((x # p) @ 0 # 0 # 0 # 1 # r) = splitStartCodes (cur @ [x]) (p @ 0 # 0 # 0 # 1 # r)"
          using pq qs Cons Cons.prems by auto
        then show ?thesis using Cons.IH [OF np, of "cur @ [x]"] by simp
      qed
    qed
  qed
qed

lemma take4_nth:
  "4 \<le> length d \<Longrightarrow> (take 4 d = [a, b, c, e]) = (d ! 0 = a \<and> d ! 1 = b \<and> d ! 2 = c \<and> d ! 3 = e)"
  by (auto simp: list_eq_iff_nth_eq less_Suc_eq numeral_Bit0 numeral_Bit1 all_conj_distrib)

lemma take3_nth:
  "3 \<le> length d \<Longrightarrow> (take 3 d = [a, b, c]) = (d ! 0 = a \<and> d ! 1 = b \<and> d ! 2 = c)"
  by (auto simp: list_eq_iff_nth_eq less_Suc_eq numeral_Bit0 numeral_Bit1 all_conj_distrib)

lemma nalLoop_nonempty:
  "nalLoop d 0 [] \<noteq> [] \<Longrightarrow> be32 d 0 \<noteq> 0 \<and> 4 + unat (be32 d 0) \<le> length d"
  by (subst (asm) nalLoop.simps) (auto simp: Let_def split: if_splits)

text \<open>
  The value read by \<open>be32\<close>, as arithmetic on the four bytes: the shifted bytes do not
  overlap, so the disjunction is their sum.
\<close>

lemma or_plus:
  fixes a b c e :: byte
  shows "(push_bit 24 (ucast a) OR push_bit 16 (ucast b) OR push_bit 8 (ucast c) OR ucast e :: 32 word)
       = push_bit 24 (ucast a) + (push_bit 16 (ucast b) + (push_bit 8 (ucast c) + ucast e))"
proof -
  have 1: "push_bit 8 (ucast c) + ucast e = (push_bit 8 (ucast c) OR ucast e :: 32 word)"
    by (rule disjunctive_add_eq_or) (auto simp: bit_eq_iff bit_simps dest: bit_imp_le_length)
  have 2: "push_bit 16 (ucast b) + (push_bit 8 (ucast c) OR ucast e)
          = (push_bit 16 (ucast b) OR (push_bit 8 (ucast c) OR ucast e) :: 32 word)"
    by (rule disjunctive_add_eq_or) (auto simp: bit_eq_iff bit_simps dest: bit_imp_le_length)
  have 3: "push_bit 24 (ucast a) + (push_bit 16 (ucast b) OR (push_bit 8 (ucast c) OR ucast e))
          = (push_bit 24 (ucast a) OR (push_bit 16 (ucast b) OR (push_bit 8 (ucast c) OR ucast e)) :: 32 word)"
    by (rule disjunctive_add_eq_or) (auto simp: bit_eq_iff bit_simps dest: bit_imp_le_length)
  show ?thesis
    unfolding 1 2 3 by (simp add: or.assoc)
qed

lemma be32_value:
  "unat (be32 d off) =
     unat (d ! off) * 16777216 + unat (d ! (off + 1)) * 65536 + unat (d ! (off + 2)) * 256
       + unat (d ! (off + 3))"
proof -
  define N where "N = unat (d ! off) * 16777216 + unat (d ! (off + 1)) * 65536
       + unat (d ! (off + 2)) * 256 + unat (d ! (off + 3))"
  have b: "unat (x :: byte) < 256" for x
    using unsigned_less [of x, where ?'a = nat] by simp
  have "be32 d off = push_bit 24 (ucast (d ! off)) + (push_bit 16 (ucast (d ! (off + 1)))
          + (push_bit 8 (ucast (d ! (off + 2))) + ucast (d ! (off + 3))))"
    unfolding be32_def by (rule or_plus)
  also have "\<dots> = word_of_nat (unat (d ! off) * 16777216) + (word_of_nat (unat (d ! (off + 1)) * 65536)
          + (word_of_nat (unat (d ! (off + 2)) * 256) + word_of_nat (unat (d ! (off + 3)))))"
    by (simp add: push_bit_eq_mult)
  also have "\<dots> = word_of_nat N"
    unfolding N_def by (simp only: of_nat_add add.assoc)
  finally have "unat (be32 d off) = N mod 2 ^ LENGTH(32)"
    by (simp only: unat_of_nat)
  moreover have "N < 2 ^ LENGTH(32)"
    unfolding N_def
    using b [of "d ! off"] b [of "d ! (off + 1)"] b [of "d ! (off + 2)"] b [of "d ! (off + 3)"]
    by simp
  ultimately show ?thesis unfolding N_def by simp
qed

text \<open>
  C6. \<open>isAvcc\<close> on a regular sample (\<open>isCodecConfig = false\<close>, size at least 4)
  returns false for every buffer beginning \<open>00 00 00 01\<close>; for every buffer beginning
  \<open>00 00 01\<close> it reads the first four bytes as a big-endian length and returns true
  exactly if that length is positive and at most \<open>size - 4\<close>; for every other leading
  pattern it returns true. In particular the 4-byte buffer \<open>00 00 02 10\<close> gives true.
  The big-endian length is written out as arithmetic on the four bytes,
  \<open>b0 * 2^24 + b1 * 2^16 + b2 * 2^8 + b3\<close>; after \<open>00 00 01\<close> it is \<open>256 + b3\<close>.
\<close>

theorem isAvcc_regular_sample:
  assumes "4 \<le> length d"
  shows "(take 4 d = [0, 0, 0, 1] \<longrightarrow> isAvcc (Some d) False = False)
       \<and> (take 3 d = [0, 0, 1] \<longrightarrow>
            isAvcc (Some d) False =
              (0 < unat (d ! 0) * 16777216 + unat (d ! 1) * 65536 + unat (d ! 2) * 256 + unat (d ! 3)
               \<and> unat (d ! 0) * 16777216 + unat (d ! 1) * 65536 + unat (d ! 2) * 256 + unat (d ! 3)
                   \<le> length d - 4))
       \<and> (take 3 d = [0, 0, 1] \<longrightarrow> isAvcc (Some d) False = (256 + unat (d ! 3) \<le> length d - 4))
       \<and> (take 4 d \<noteq> [0, 0, 0, 1] \<and> take 3 d \<noteq> [0, 0, 1] \<longrightarrow> isAvcc (Some d) False = True)
       \<and> isAvcc (Some [0x00, 0x00, 0x02, 0x10]) False = True"
proof -
  have v: "unat (be32 d 0) =
      unat (d ! 0) * 16777216 + unat (d ! 1) * 65536 + unat (d ! 2) * 256 + unat (d ! 3)"
    using be32_value [of d 0] by (simp only: add_0)
  have c1: "take 4 d = [0, 0, 0, 1] \<longrightarrow> isAvcc (Some d) False = False"
    using assms by (simp add: isAvcc_def take4_nth)
  have c2: "take 3 d = [0, 0, 1] \<longrightarrow>
            isAvcc (Some d) False =
              (0 < unat (d ! 0) * 16777216 + unat (d ! 1) * 65536 + unat (d ! 2) * 256 + unat (d ! 3)
               \<and> unat (d ! 0) * 16777216 + unat (d ! 1) * 65536 + unat (d ! 2) * 256 + unat (d ! 3)
                   \<le> length d - 4)"
    unfolding v [symmetric]
    using assms by (auto simp: isAvcc_def take3_nth Let_def word_greater_zero_iff unat_eq_0 unat_gt_0)
  have c3: "take 3 d = [0, 0, 1] \<longrightarrow> isAvcc (Some d) False = (256 + unat (d ! 3) \<le> length d - 4)"
  proof
    assume t: "take 3 d = [0, 0, 1]"
    then have "d ! 0 = 0" "d ! 1 = 0" "d ! 2 = 1"
      using assms by (simp_all add: take3_nth)
    then show "isAvcc (Some d) False = (256 + unat (d ! 3) \<le> length d - 4)"
      using c2 t by simp
  qed
  have c4: "take 4 d \<noteq> [0, 0, 0, 1] \<and> take 3 d \<noteq> [0, 0, 1] \<longrightarrow> isAvcc (Some d) False = True"
    using assms by (auto simp: isAvcc_def take4_nth take3_nth)
  have c5: "isAvcc (Some [0x00, 0x00, 0x02, 0x10]) False = True"
    by (simp add: isAvcc_def)
  show ?thesis using c1 c2 c3 c4 c5 by blast
qed

text \<open>
  The cases of the detection at concrete buffers: a 4-byte start code; a 3-byte start code
  whose length 357 does not fit; \<open>00 00 01 00\<close> followed by 256 bytes, where the length
  256 fits exactly and the result is true; the same with 255 bytes, where it does not fit;
  and the buffer \<open>00 00 02 10\<close>.
\<close>

theorem isAvcc_regular_sample_witness:
  "isAvcc (Some [0, 0, 0, 1, 0x65]) False = False
   \<and> isAvcc (Some [0, 0, 1, 0x65]) False = False
   \<and> isAvcc (Some ([0, 0, 1, 0x00] @ replicate 256 0x65)) False = True
   \<and> isAvcc (Some ([0, 0, 1, 0x00] @ replicate 255 0x65)) False = False
   \<and> isAvcc (Some [0, 0, 2, 0x10]) False = True"
  using isAvcc_regular_sample [of "[0, 0, 0, 1, 0x65]"]
        isAvcc_regular_sample [of "[0, 0, 1, 0x65]"]
        isAvcc_regular_sample [of "[0, 0, 1, 0x00] @ replicate 256 0x65"]
        isAvcc_regular_sample [of "[0, 0, 1, 0x00] @ replicate 255 0x65"]
        isAvcc_regular_sample [of "[0, 0, 2, 0x10]"]
  by simp

text \<open>
  C1, as amended. For every buffer of at least four bytes: if it does not begin with the
  4-byte start code and the non-configuration conversion succeeds on it with a non-empty
  output, then \<open>isAvcc\<close> is true; if it begins with the 4-byte start code,
  \<open>isAvcc\<close> is false; and if it begins with the 3-byte start code \<open>00 00 01\<close>,
  \<open>isAvcc\<close> is false exactly when the big-endian value of its first four bytes
  exceeds \<open>size - 4\<close>.
\<close>

theorem isAvcc_conversion_consistency:
  assumes "4 \<le> length d"
  shows "(take 4 d \<noteq> startCode \<and> convertAvccToAnnexB (Some d) old False mime = (True, out)
            \<and> out \<noteq> [] \<longrightarrow> isAvcc (Some d) False)
       \<and> (take 4 d = startCode \<longrightarrow> \<not> isAvcc (Some d) False)
       \<and> (take 3 d = [0, 0, 1] \<longrightarrow>
            (\<not> isAvcc (Some d) False) = (length d - 4 < unat (be32 d 0)))"
proof (intro conjI impI)
  assume a: "take 4 d \<noteq> startCode \<and> convertAvccToAnnexB (Some d) old False mime = (True, out) \<and> out \<noteq> []"
  then have "nalLoop d 0 [] \<noteq> []"
    using assms by (auto simp: convertAvccToAnnexB_def Let_def)
  then have l: "be32 d 0 \<noteq> 0" "4 + unat (be32 d 0) \<le> length d"
    using nalLoop_nonempty by blast+
  from a have "\<not> (d ! 0 = 0 \<and> d ! 1 = 0 \<and> d ! 2 = 0 \<and> d ! 3 = 1)"
    using assms by (simp add: startCode_def take4_nth)
  with l assms show "isAvcc (Some d) False"
    by (auto simp: isAvcc_def Let_def word_greater_zero_iff)
next
  assume "take 4 d = startCode"
  then show "\<not> isAvcc (Some d) False"
    using assms by (simp add: isAvcc_def startCode_def take4_nth)
next
  assume a: "take 3 d = [0, 0, 1]"
  then have p: "d ! 0 = 0" "d ! 1 = 0" "d ! 2 = 1" using assms by (simp_all add: take3_nth)
  have p2: "d ! Suc (Suc 0) = 1"
    using p(3) by (simp add: numeral_2_eq_2)
  have e: "be32 d 0 = 256 OR ucast (d ! 3)"
    using p p2 by (simp add: be32_def)
  have "be32 d 0 \<noteq> 0"
    unfolding e by (simp add: or_eq_0_iff)
  then show "(\<not> isAvcc (Some d) False) = (length d - 4 < unat (be32 d 0))"
    using assms p by (auto simp: isAvcc_def Let_def word_greater_zero_iff)
qed

text \<open>
  The claim as stated fails on both sides. The five bytes \<open>00 00 00 01 65\<close> are a valid
  length-prefixed buffer (one unit of length 1) that the conversion accepts, yet
  \<open>isAvcc\<close> calls it Annex B; and an Annex B buffer with the 3-byte start code followed
  by 257 bytes is taken for AVCC, since \<open>00 00 01 00\<close> read as a length is 256 and
  fits.
\<close>

theorem isAvcc_conversion_counterexample:
  "convertAvccToAnnexB (Some [0, 0, 0, 1, 0x65]) [] False ''video/avc'' = (True, [0, 0, 0, 1, 0x65])
   \<and> isAvcc (Some [0, 0, 0, 1, 0x65]) False = False
   \<and> isAvcc (Some ([0, 0, 1, 0x00] @ replicate 256 0x65)) False = True"
  by (simp add: convertAvccToAnnexB_def nalLoop.simps be32_def startCode_def isAvcc_def)

text \<open>
  The amended statement at a converted buffer, at a 4-byte start code and at a 3-byte
  start code.
\<close>

theorem isAvcc_conversion_consistency_witness:
  "isAvcc (Some [0, 0, 0, 2, 0x65, 0x88]) False
   \<and> \<not> isAvcc (Some [0, 0, 0, 1, 0x65]) False
   \<and> \<not> isAvcc (Some [0, 0, 1, 0x65]) False"
  using isAvcc_conversion_consistency [of "[0, 0, 0, 2, 0x65, 0x88]" "[]" "''video/avc''" "[0, 0, 0, 1, 0x65, 0x88]"]
        isAvcc_conversion_consistency [of "[0, 0, 0, 1, 0x65]" "[]" "''video/avc''" "[]"]
        isAvcc_conversion_consistency [of "[0, 0, 1, 0x65]" "[]" "''video/avc''" "[]"]
  by (simp add: convertAvccToAnnexB_def nalLoop.simps be32_def startCode_def)

text \<open>
  C10. For a null data pointer or a size below 4, \<open>isAvcc\<close> and
  \<open>convertAvccToAnnexB\<close> return false for every value of \<open>isCodecConfig\<close> and every
  MIME type, and the caller's output vector is left as it was.
\<close>

theorem null_or_short_input_rejected:
  assumes "data = None \<or> (\<exists>d. data = Some d \<and> length d < 4)"
  shows "isAvcc data isCodecConfig = False
       \<and> convertAvccToAnnexB data annexBData isCodecConfig mime = (False, annexBData)"
  using assms by (auto simp: isAvcc_def convertAvccToAnnexB_def)

text \<open>
  A null pointer and a 3-byte buffer, with an output vector holding two bytes on entry.
\<close>

theorem null_or_short_input_rejected_witness:
  "isAvcc None True = False
   \<and> convertAvccToAnnexB None [7, 7] True ''video/hevc'' = (False, [7, 7])
   \<and> isAvcc (Some [0, 0, 1]) False = False
   \<and> convertAvccToAnnexB (Some [0, 0, 1]) [7, 7] False ''video/avc'' = (False, [7, 7])"
  using null_or_short_input_rejected [of None True "[7, 7]" "''video/hevc''"]
        null_or_short_input_rejected [of "Some [0, 0, 1]" False "[7, 7]" "''video/avc''"]
  by simp

lemma split_toAnnexB:
  "\<forall>q \<in> set (p # ps). \<not> hasStartCode q \<Longrightarrow>
     splitStartCodes cur (p @ toAnnexB ps) = (cur @ p) # ps"
proof (induction ps arbitrary: p cur)
  case Nil
  then show ?case by (simp add: toAnnexB_def split_no_code_final)
next
  case (Cons q qs)
  have "splitStartCodes cur (p @ toAnnexB (q # qs)) =
        splitStartCodes cur (p @ 0 # 0 # 0 # 1 # (q @ toAnnexB qs))"
    by (simp add: toAnnexB_def startCode_def)
  also have "\<dots> = (cur @ p) # splitStartCodes [] (q @ toAnnexB qs)"
    using Cons.prems by (simp add: split_payload)
  also have "splitStartCodes [] (q @ toAnnexB qs) = q # qs"
    using Cons.IH [of q "[]"] Cons.prems by simp
  finally show ?case .
qed

lemma annexBPayloads_toAnnexB:
  "\<forall>q \<in> set ps. \<not> hasStartCode q \<Longrightarrow> annexBPayloads (toAnnexB ps) = ps"
proof (cases ps)
  case Nil
  then show ?thesis by (simp add: annexBPayloads_def toAnnexB_def)
next
  case (Cons p qs)
  assume a: "\<forall>q \<in> set ps. \<not> hasStartCode q"
  have "toAnnexB ps = 0 # 0 # 0 # 1 # (p @ toAnnexB qs)"
    using Cons by (simp add: toAnnexB_def startCode_def)
  then show ?thesis
    using a Cons split_toAnnexB [of p qs "[]"] by (simp add: annexBPayloads_def)
qed

lemma length_toAnnexB_parse:
  "wellFormedAvcc b \<Longrightarrow> length (toAnnexB (parseAvcc b)) = length b"
proof (induction b rule: parseAvcc.induct)
  case (1 b)
  show ?case
  proof (cases "b = []")
    case True
    then show ?thesis by (simp add: parseAvcc.simps [of "[]"] toAnnexB_def)
  next
    case False
    define n where "n = unat (be32 b 0)"
    from False "1.prems" have f: "\<not> length b < 4" "\<not> (n = 0 \<or> 4 + n > length b)"
        and w: "wellFormedAvcc (drop (4 + n) b)"
      by (subst (asm) wellFormedAvcc.simps, simp add: Let_def n_def split: if_splits)+
    have p: "parseAvcc b = take n (drop 4 b) # parseAvcc (drop (4 + n) b)"
      using f by (subst parseAvcc.simps) (simp add: Let_def n_def [symmetric])
    have "length (toAnnexB (parseAvcc (drop (4 + n) b))) = length (drop (4 + n) b)"
      using "1.IH" [OF f(1) n_def f(2) w] .
    moreover have "length (take n (drop 4 b)) = n"
      using f by auto
    ultimately have "length (toAnnexB (parseAvcc b)) = 4 + n + (length b - (4 + n))"
      unfolding p toAnnexB_def startCode_def by simp
    then show ?thesis using f by simp
  qed
qed

lemma parseAvcc_nonempty: "wellFormedAvcc b \<Longrightarrow> b \<noteq> [] \<Longrightarrow> parseAvcc b \<noteq> []"
  by (subst (asm) wellFormedAvcc.simps, subst parseAvcc.simps) (simp add: Let_def split: if_splits)

text \<open>
  C5, as amended. For every well-formed AVCC/HVCC buffer that holds at least one unit
  and none of whose payloads contains the byte sequence \<open>00 00 00 01\<close>, the
  non-configuration conversion succeeds, and re-scanning its output for 4-byte start
  codes recovers exactly the sequence (and count) of payloads that parsing the source by
  its length prefixes gives; the output is as long as the input.
\<close>

theorem avcc_annexB_round_trip:
  assumes "wellFormedAvcc b" and "b \<noteq> []"
    and "\<forall>p \<in> set (parseAvcc b). \<not> hasStartCode p"
  shows "\<exists>out. convertAvccToAnnexB (Some b) old False mime = (True, out)
           \<and> annexBPayloads out = parseAvcc b
           \<and> length (annexBPayloads out) = length (parseAvcc b)
           \<and> length out = length b"
proof -
  have len: "\<not> length b < 4"
    using assms(1,2) by (subst (asm) wellFormedAvcc.simps) (simp split: if_splits)
  have out: "nalLoop b 0 [] = toAnnexB (parseAvcc b)"
    using nalLoop_parse [of 0 b "[]"] by simp
  have ne: "toAnnexB (parseAvcc b) \<noteq> []"
    using parseAvcc_nonempty [OF assms(1,2)]
    by (cases "parseAvcc b") (simp_all add: toAnnexB_def startCode_def)
  have "convertAvccToAnnexB (Some b) old False mime = (True, toAnnexB (parseAvcc b))"
    using len ne by (simp add: convertAvccToAnnexB_def out)
  then show ?thesis
    using annexBPayloads_toAnnexB [OF assms(3)] length_toAnnexB_parse [OF assms(1)] by simp
qed

text \<open>
  A well-formed buffer with the single payload \<open>00 00 00 01\<close>: the conversion
  succeeds, but its output reads as two empty payloads when scanned for start codes.
\<close>

theorem avcc_annexB_round_trip_counterexample:
  "wellFormedAvcc [0, 0, 0, 4, 0, 0, 0, 1]
   \<and> parseAvcc [0, 0, 0, 4, 0, 0, 0, 1] = [[0, 0, 0, 1]]
   \<and> convertAvccToAnnexB (Some [0, 0, 0, 4, 0, 0, 0, 1]) [] False ''video/avc''
       = (True, [0, 0, 0, 1, 0, 0, 0, 1])
   \<and> annexBPayloads [0, 0, 0, 1, 0, 0, 0, 1] = [[], []]"
  by (simp add: wellFormedAvcc.simps parseAvcc.simps convertAvccToAnnexB_def nalLoop.simps
        be32_def startCode_def annexBPayloads_def)

text \<open>
  A buffer of two units, \<open>65 88\<close> and \<open>41\<close>.
\<close>

theorem avcc_annexB_round_trip_witness:
  "wellFormedAvcc [0, 0, 0, 2, 0x65, 0x88, 0, 0, 0, 1, 0x41]
   \<and> convertAvccToAnnexB (Some [0, 0, 0, 2, 0x65, 0x88, 0, 0, 0, 1, 0x41]) [] False ''video/avc''
       = (True, [0, 0, 0, 1, 0x65, 0x88, 0, 0, 0, 1, 0x41])
   \<and> annexBPayloads [0, 0, 0, 1, 0x65, 0x88, 0, 0, 0, 1, 0x41] = [[0x65, 0x88], [0x41]]
   \<and> parseAvcc [0, 0, 0, 2, 0x65, 0x88, 0, 0, 0, 1, 0x41] = [[0x65, 0x88], [0x41]]"
proof -
  have w: "wellFormedAvcc [0, 0, 0, 2, 0x65, 0x88, 0, 0, 0, 1, 0x41]"
    by (simp add: wellFormedAvcc.simps be32_def)
  have p: "parseAvcc [0, 0, 0, 2, 0x65, 0x88, 0, 0, 0, 1, 0x41] = [[0x65, 0x88], [0x41]]"
    by (simp add: parseAvcc.simps be32_def)
  have n: "\<forall>p \<in> set (parseAvcc [0, 0, 0, 2, 0x65, 0x88, 0, 0, 0, 1, 0x41]). \<not> hasStartCode p"
    by (simp add: p)
  show ?thesis
    using avcc_annexB_round_trip [OF w _ n, of "[]" "''video/avc''"] w p
    by (auto simp: convertAvccToAnnexB_def nalLoop.simps be32_def startCode_def annexBPayloads_def)
qed


end
